theory Spec2Isabelle
  imports Main
begin

section \<open>The orchestrator of \<^verbatim>\<open>ai-runlevel.mjs\<close>\<close>

text \<open>
  The module is one single-threaded Node.js process. Its asynchronous functions run
  without interruption from one \<^verbatim>\<open>await\<close> to the next, so each such stretch of
  code is one atomic transition of the model:
  \<^item> the readiness loop of \<^verbatim>\<open>main\<close> is the recursive function \<open>await_ollama\<close>;
  \<^item> one pass of the \<^verbatim>\<open>while (true)\<close> body of \<^verbatim>\<open>spawnLoop\<close>, from its top
    to the \<^verbatim>\<open>await\<close> it stops at, is \<open>spawnLoop_body\<close>;
  \<^item> the \<^verbatim>\<open>exit\<close> handler of a child process is \<open>on_exit\<close>.
  Timers and child processes are the environment: they decide when a sleeping loop
  wakes up and when a child exits, which the model takes as a list of events.
  The file system is a set of existing paths, and file writes are taken to succeed.
  What a call of \<^verbatim>\<open>spawn\<close> gives is decided by the environment too.
\<close>

subsection \<open>Constants\<close>

type_synonym agent = string

definition RUNLEVEL_DIR :: string where
  "RUNLEVEL_DIR = ''/home/loop/ai-runlevel''"

definition SOCKETS_DIR :: string where
  "SOCKETS_DIR = RUNLEVEL_DIR @ ''/sockets''"

definition OLLAMA_LATCH :: string where
  "OLLAMA_LATCH = SOCKETS_DIR @ ''/ollama_ready.latch''"

definition RUNLEVEL_LATCH :: string where
  "RUNLEVEL_LATCH = SOCKETS_DIR @ ''/runlevel.latch''"

text \<open>
  The object literal \<^verbatim>\<open>DEPENDENCIES\<close>, in the order of its keys, and
  \<^verbatim>\<open>AGENTS = Object.keys(DEPENDENCIES)\<close>. The functions below take the table as a
  parameter \<open>tbl\<close>; a property lookup \<^verbatim>\<open>DEPENDENCIES[agentName]\<close> is \<open>map_of tbl\<close>.
\<close>

type_synonym dep_table = "(agent \<times> agent list) list"

definition DEPENDENCIES :: dep_table where
  "DEPENDENCIES =
     [(''CORE'', []),
      (''WAVE'', [''CORE'']),
      (''LOOP'', [''CORE'']),
      (''COIN'', [''CORE'']),
      (''SIGN'', [''CORE'']),
      (''WORK'', [''CORE'', ''LOOP'']),
      (''CUBE'', [''CORE'', ''WAVE'']),
      (''CODE'', [''CORE'', ''WORK'']),
      (''LINE'', [''CORE'', ''SIGN''])]"

definition Object_keys :: "dep_table \<Rightarrow> agent list" where
  "Object_keys tbl = map fst tbl"

definition AGENTS :: "agent list" where
  "AGENTS = Object_keys DEPENDENCIES"

subsection \<open>Observable effects\<close>

text \<open>
  The lines written to the console, by the statement that writes them:
  \<^item> \<open>Log_OllamaNotReady\<close>: \<^verbatim>\<open>"[ai-runlevel] Ollama not ready. Checking ..."\<close>
  \<^item> \<open>Log_OllamaTimeout\<close>: \<^verbatim>\<open>"[ai-runlevel] Ollama timeout. Creating placeholder latch to proceed..."\<close>
  \<^item> \<open>Log_Starting a\<close>: \<^verbatim>\<open>`[${agentName}] Starting...`\<close>
  \<^item> \<open>Err_ScriptMissing a p\<close>: \<^verbatim>\<open>`[${agentName}] Script missing: ${script}. Retrying in 5s...`\<close>
  \<^item> \<open>Log_Exited a code\<close>: \<^verbatim>\<open>`[${agentName}] Exited with code ${code}. Restarting in 2s...`\<close>,
    where \<open>code\<close> is \<open>None\<close> for the \<^verbatim>\<open>null\<close> of a child killed by a signal.
\<close>

datatype console =
    Log_OllamaNotReady
  | Log_OllamaTimeout
  | Log_Starting agent
  | Err_ScriptMissing agent string
  | Log_Exited agent "int option"

text \<open>
  What the code does, in the order it does it: console lines, sleeps and timers, tests
  for a file, file writes, \<^verbatim>\<open>spawn("node", [script], ...)\<close>, and
  \<^verbatim>\<open>startedAgents.add\<close> and \<^verbatim>\<open>startedAgents.delete\<close>. The log file of an agent
  and the piping of the output of its child change nothing in the state below and are
  left out, as are the console lines of \<^verbatim>\<open>main\<close> outside its readiness loop.
\<close>

datatype action =
    Console console
  | Sleep nat
  | SetTimeout nat
  | ExistsSync string
  | WriteFile string string
  | SpawnNode string
  | RegistryAdd agent
  | RegistryDelete agent

subsection \<open>The readiness gate: \<^verbatim>\<open>checkOllamaReady\<close> and the loop of \<^verbatim>\<open>main\<close>\<close>

text \<open>
  One HTTP request of \<^verbatim>\<open>checkOllamaReady\<close> either gets a response with a status
  code or fails (connection error, or the 1000 ms timeout that destroys the request).
  The promise resolves for status 200 only; in every other case the \<^verbatim>\<open>catch\<close>
  branch returns \<^verbatim>\<open>fs.existsSync(OLLAMA_LATCH)\<close>.
\<close>

datatype http_result = Status nat | NetError

definition checkOllamaReady :: "http_result \<Rightarrow> string set \<Rightarrow> bool" where
  "checkOllamaReady r fs =
     (case r of
        Status c \<Rightarrow> if c = 200 then True else OLLAMA_LATCH \<in> fs
      | NetError \<Rightarrow> OLLAMA_LATCH \<in> fs)"

text \<open>
  The state of the loop \<^verbatim>\<open>while (!(await checkOllamaReady())) { ... }\<close>:
  the counter \<^verbatim>\<open>retries\<close>, the number of calls of \<^verbatim>\<open>checkOllamaReady\<close> made so
  far, the value the last call returned, the file system, and what was done.
  The argument \<open>http\<close> of the loop gives the outcome of the k-th HTTP request
  (counted from 0).
\<close>

record gate =
  retries :: nat
  calls :: nat
  ready :: bool
  files :: "string set"
  trace :: "action list"

definition gate0 :: "string set \<Rightarrow> gate" where
  "gate0 fs = \<lparr>retries = 0, calls = 0, ready = False, files = fs, trace = []\<rparr>"

definition gate_check :: "(nat \<Rightarrow> http_result) \<Rightarrow> gate \<Rightarrow> gate" where
  "gate_check http g =
     g\<lparr>ready := checkOllamaReady (http (calls g)) (files g), calls := calls g + 1\<rparr>"

definition gate_body :: "gate \<Rightarrow> gate" where
  "gate_body g =
     (let g1 = (if retries g mod 10 = 0
                then g\<lparr>trace := trace g @ [Console Log_OllamaNotReady]\<rparr> else g);
          g2 = g1\<lparr>trace := trace g1 @ [Sleep 2000]\<rparr>;
          g3 = g2\<lparr>retries := retries g2 + 1\<rparr>
      in if retries g3 > 15
         then g3\<lparr>trace := trace g3 @
                     [Console Log_OllamaTimeout, WriteFile OLLAMA_LATCH ''LATCH_BYPASS''],
                 files := insert OLLAMA_LATCH (files g3)\<rparr>
         else g3)"

function await_ollama :: "(nat \<Rightarrow> http_result) \<Rightarrow> gate \<Rightarrow> gate" where
  "await_ollama http g =
     (if ready (gate_check http g) then gate_check http g
      else await_ollama http (gate_body (gate_check http g)))"
  by pat_completeness auto
termination
  apply (relation "measure (\<lambda>(http, g).
           if OLLAMA_LATCH \<in> files g then 0 else 1 + (16 - retries g))")
   apply (auto simp: gate_check_def gate_body_def checkOllamaReady_def Let_def
               split: http_result.splits if_splits)
  done

declare await_ollama.simps [simp del]

subsection \<open>The supervisor loop of an agent: \<^verbatim>\<open>startAgent\<close> and \<^verbatim>\<open>spawnLoop\<close>\<close>

text \<open>
  \<^verbatim>\<open>path.join(RUNLEVEL_DIR, `nexus-${agentName.toLowerCase()}.mjs`)\<close>, for agent
  names of ASCII letters as in the table.
\<close>

definition toLowerCase :: "string \<Rightarrow> string" where
  "toLowerCase str =
     map (\<lambda>c. let n = (of_char c :: nat)
              in if 65 \<le> n \<and> n \<le> 90 then char_of (n + 32) else c) str"

definition script :: "agent \<Rightarrow> string" where
  "script agentName = RUNLEVEL_DIR @ ''/nexus-'' @ toLowerCase agentName @ ''.mjs''"

text \<open>
  Where the \<^verbatim>\<open>spawnLoop\<close> of an agent is suspended: not yet called, in one of the
  \<^verbatim>\<open>sleep\<close>s or in the restart delay (\<open>Sleeping ms\<close>), waiting for the \<^verbatim>\<open>exit\<close>
  event of the running child it spawned (\<open>AwaitingExit\<close>), waiting for the
  \<^verbatim>\<open>exit\<close> event of a child that could not be started (\<open>AwaitingFailed\<close>), or
  rejected by the \<^verbatim>\<open>TypeError\<close> that \<^verbatim>\<open>deps.every\<close> throws for a name with no
  entry in the table.
\<close>

datatype loop_state = NotStarted | Sleeping nat | AwaitingExit | AwaitingFailed | Rejected

text \<open>
  What \<^verbatim>\<open>spawn("node", [script], ...)\<close> gives. The code does not look at it:
  \<^item> \<open>ChildStarted\<close>: the child process runs, and its \<^verbatim>\<open>exit\<close> event comes
    when it ends;
  \<^item> \<open>LaunchFailed\<close>: the process could not be started (\<^verbatim>\<open>ENOENT\<close>,
    \<^verbatim>\<open>EACCES\<close>, \<^verbatim>\<open>EAGAIN\<close>). Node still returns a child object with its
    streams, so the pass goes on as for a running child, and queues an \<^verbatim>\<open>error\<close>
    event for the object; no \<^verbatim>\<open>exit\<close> event ever comes. The code puts no listener
    on \<^verbatim>\<open>error\<close>, so when the event is delivered, after the current stretch of
    code, Node raises it as an uncaught exception and the supervisor process ends;
  \<^item> \<open>SpawnThrew\<close>: the call, or the piping of the streams that follows it,
    throws; the promise of \<^verbatim>\<open>spawnLoop\<close> is rejected, as for the
    \<^verbatim>\<open>TypeError\<close> above, before the name is added.
\<close>

datatype spawn_result = ChildStarted | LaunchFailed | SpawnThrew

text \<open>
  The state shared by every supervisor loop: the set \<^verbatim>\<open>startedAgents\<close>, the
  suspension point of each loop, the number of running child processes spawned for each
  agent that have not exited yet, whether an \<^verbatim>\<open>error\<close> event without a listener
  is queued (\<open>fatal\<close>), and the effects performed so far, oldest first.
\<close>

record sys =
  startedAgents :: "agent set"
  loopAt :: "agent \<Rightarrow> loop_state"
  handles :: "agent \<Rightarrow> nat"
  fatal :: bool
  effects :: "action list"

definition sys0 :: sys where
  "sys0 = \<lparr>startedAgents = {}, loopAt = (\<lambda>_. NotStarted), handles = (\<lambda>_. 0),
           fatal = False, effects = []\<rparr>"

text \<open>\<^verbatim>\<open>deps.every(dep => startedAgents.has(dep))\<close>\<close>

definition allDepsStarted :: "agent list \<Rightarrow> agent set \<Rightarrow> bool" where
  "allDepsStarted deps started = list_all (\<lambda>dep. dep \<in> started) deps"

definition spawnLoop_body ::
  "dep_table \<Rightarrow> agent \<Rightarrow> string set \<Rightarrow> spawn_result \<Rightarrow> sys \<Rightarrow> sys" where
  "spawnLoop_body tbl agentName fs sr s =
     (case map_of tbl agentName of
        None \<Rightarrow> s\<lparr>loopAt := (loopAt s)(agentName := Rejected)\<rparr>
      | Some deps \<Rightarrow>
          if \<not> allDepsStarted deps (startedAgents s) then
            s\<lparr>loopAt := (loopAt s)(agentName := Sleeping 1000),
              effects := effects s @ [Sleep 1000]\<rparr>
          else if script agentName \<notin> fs then
            s\<lparr>loopAt := (loopAt s)(agentName := Sleeping 5000),
              effects := effects s @
                [ExistsSync (script agentName),
                 Console (Err_ScriptMissing agentName (script agentName)),
                 Sleep 5000]\<rparr>
          else
            (case sr of
               ChildStarted \<Rightarrow>
                 s\<lparr>startedAgents := insert agentName (startedAgents s),
                   loopAt := (loopAt s)(agentName := AwaitingExit),
                   handles := (handles s)(agentName := handles s agentName + 1),
                   effects := effects s @
                     [ExistsSync (script agentName),
                      Console (Log_Starting agentName),
                      SpawnNode (script agentName),
                      RegistryAdd agentName]\<rparr>
             | LaunchFailed \<Rightarrow>
                 s\<lparr>startedAgents := insert agentName (startedAgents s),
                   loopAt := (loopAt s)(agentName := AwaitingFailed),
                   fatal := True,
                   effects := effects s @
                     [ExistsSync (script agentName),
                      Console (Log_Starting agentName),
                      SpawnNode (script agentName),
                      RegistryAdd agentName]\<rparr>
             | SpawnThrew \<Rightarrow>
                 s\<lparr>loopAt := (loopAt s)(agentName := Rejected),
                   effects := effects s @
                     [ExistsSync (script agentName),
                      Console (Log_Starting agentName),
                      SpawnNode (script agentName)]\<rparr>))"

text \<open>
  The handler \<^verbatim>\<open>proc.on("exit", code => { ... })\<close>: log, delete the name from
  \<^verbatim>\<open>startedAgents\<close>, then \<^verbatim>\<open>setTimeout(resolve, 2000)\<close>.
\<close>

definition on_exit :: "agent \<Rightarrow> int option \<Rightarrow> sys \<Rightarrow> sys" where
  "on_exit agentName code s =
     s\<lparr>startedAgents := startedAgents s - {agentName},
       loopAt := (loopAt s)(agentName := Sleeping 2000),
       handles := (handles s)(agentName := handles s agentName - 1),
       effects := effects s @
         [Console (Log_Exited agentName code), RegistryDelete agentName, SetTimeout 2000]\<rparr>"

text \<open>
  \<^verbatim>\<open>startAgent\<close> calls \<^verbatim>\<open>spawnLoop()\<close>, which runs its first pass at once.
  \<^verbatim>\<open>AGENTS.forEach(agent => startAgent(agent))\<close> does so for every key of the
  table, in order and without an \<^verbatim>\<open>await\<close> in between, so on one file system and
  before any queued \<^verbatim>\<open>error\<close> event is delivered. The argument \<open>srs\<close> gives what
  \<^verbatim>\<open>spawn\<close> does for the script of each agent in that stretch.
\<close>

definition startAgent ::
  "dep_table \<Rightarrow> string set \<Rightarrow> (agent \<Rightarrow> spawn_result) \<Rightarrow> agent \<Rightarrow> sys \<Rightarrow> sys" where
  "startAgent tbl fs srs agentName s = spawnLoop_body tbl agentName fs (srs agentName) s"

definition boot :: "dep_table \<Rightarrow> string set \<Rightarrow> (agent \<Rightarrow> spawn_result) \<Rightarrow> sys" where
  "boot tbl fs srs =
     foldl (\<lambda>s agentName. startAgent tbl fs srs agentName s) sys0 (Object_keys tbl)"

definition every_child_starts :: "agent \<Rightarrow> spawn_result" where
  "every_child_starts agentName = ChildStarted"

text \<open>
  \<^verbatim>\<open>main\<close>: the readiness loop, the start of all agents, and the write of
  \<^verbatim>\<open>runlevel.latch\<close>. It returns the final state of the gate, the state of the
  supervisor and the file system it leaves.
\<close>

definition main ::
  "dep_table \<Rightarrow> (nat \<Rightarrow> http_result) \<Rightarrow> string set \<Rightarrow> (agent \<Rightarrow> spawn_result) \<Rightarrow>
   gate \<times> sys \<times> string set" where
  "main tbl http fs srs =
     (let g = await_ollama http (gate0 fs);
          s = boot tbl (files g) srs
      in (g, s, insert RUNLEVEL_LATCH (files g)))"

text \<open>
  What happens after \<^verbatim>\<open>main\<close>: a timer fires and the loop of an agent goes
  through its body again, on the file system of that moment and with what
  \<^verbatim>\<open>spawn\<close> gives at that moment (\<open>Wake\<close>), or a running child process of an agent
  exits with a code and its handler runs (\<open>ProcExit\<close>). An event that cannot happen
  in a state (no timer pending, no child alive) gives \<open>None\<close>. Once an \<^verbatim>\<open>error\<close>
  event without a listener is queued, it is delivered before any timer or exit event
  and ends the process, so no event happens in a \<open>fatal\<close> state.
\<close>

datatype event = Wake agent "string set" spawn_result | ProcExit agent "int option"

fun step :: "dep_table \<Rightarrow> event \<Rightarrow> sys \<Rightarrow> sys option" where
  "step tbl (Wake a fs sr) s =
     (if fatal s then None
      else case loopAt s a of
        Sleeping ms \<Rightarrow> Some (spawnLoop_body tbl a fs sr s)
      | _ \<Rightarrow> None)"
| "step tbl (ProcExit a code) s =
     (if fatal s then None
      else if handles s a > 0 then Some (on_exit a code s) else None)"

fun run :: "dep_table \<Rightarrow> event list \<Rightarrow> sys \<Rightarrow> sys option" where
  "run tbl [] s = Some s"
| "run tbl (e # es) s =
     (case step tbl e s of None \<Rightarrow> None | Some s' \<Rightarrow> run tbl es s')"

section \<open>Notions used in the statements\<close>

text \<open>
  The invariant behind the at-most-one-child property; the effects that change
  \<^verbatim>\<open>startedAgents\<close>; what it means for an agent never to have been
  launched, and to be retrying; the edges of the dependency graph of a table, the
  agents that can be launched at all, and the layers of the table as shipped.
\<close>

definition one_child :: "sys \<Rightarrow> bool" where
  "one_child s = (\<forall>a. handles s a = (if loopAt s a = AwaitingExit then 1 else 0))"

fun marks_registry :: "action \<Rightarrow> bool" where
  "marks_registry (RegistryAdd a) = True"
| "marks_registry (RegistryDelete a) = True"
| "marks_registry _ = False"

definition never_launched :: "agent \<Rightarrow> sys \<Rightarrow> bool" where
  "never_launched a s \<longleftrightarrow>
     a \<notin> startedAgents s \<and> handles s a = 0 \<and> Console (Log_Starting a) \<notin> set (effects s)"

definition retrying :: "agent \<Rightarrow> sys \<Rightarrow> bool" where
  "retrying a s \<longleftrightarrow>
     never_launched a s \<and> (loopAt s a = Sleeping 1000 \<or> loopAt s a = Sleeping 5000)"

definition dep_edges :: "dep_table \<Rightarrow> (agent \<times> agent) set" where
  "dep_edges tbl = {(a, d). \<exists>ds. map_of tbl a = Some ds \<and> d \<in> set ds}"

inductive launchable :: "dep_table \<Rightarrow> agent \<Rightarrow> bool" for tbl where
  "map_of tbl a = Some ds \<Longrightarrow> (\<forall>d\<in>set ds. launchable tbl d) \<Longrightarrow> launchable tbl a"

definition only_launchable :: "dep_table \<Rightarrow> sys \<Rightarrow> bool" where
  "only_launchable tbl s \<longleftrightarrow>
     (\<forall>a. a \<in> startedAgents s \<or> 0 < handles s a \<longrightarrow> launchable tbl a)"

definition dep_rank :: "agent \<Rightarrow> nat" where
  "dep_rank a = (if a = ''CORE'' then 0
             else if a \<in> {''WAVE'', ''LOOP'', ''COIN'', ''SIGN''} then 1
             else if a \<in> {''WORK'', ''CUBE'', ''LINE''} then 2 else 3)"

definition blocked :: "dep_table \<Rightarrow> agent \<Rightarrow> sys \<Rightarrow> bool" where
  "blocked tbl a s \<longleftrightarrow> only_launchable tbl s \<and> loopAt s a = Sleeping 1000"

section \<open>Properties of the readiness gate\<close>

lemma check_fail:
  "r \<noteq> Status 200 \<Longrightarrow> checkOllamaReady r fs = (OLLAMA_LATCH \<in> fs)"
  by (cases r) (auto simp: checkOllamaReady_def)

lemma check_ok: "checkOllamaReady (Status 200) fs"
  by (simp add: checkOllamaReady_def)

lemma check_latch: "OLLAMA_LATCH \<in> fs \<Longrightarrow> checkOllamaReady r fs"
  by (cases r) (auto simp: checkOllamaReady_def)

lemma await_latch_present:
  "OLLAMA_LATCH \<in> files g \<Longrightarrow>
   await_ollama http g = g\<lparr>ready := True, calls := calls g + 1\<rparr>"
  by (subst await_ollama.simps) (simp add: gate_check_def check_latch)

lemma await_http_ok:
  "http (calls g) = Status 200 \<Longrightarrow>
   await_ollama http g = g\<lparr>ready := True, calls := calls g + 1\<rparr>"
  by (subst await_ollama.simps) (simp add: gate_check_def check_ok)

lemma await_retry:
  "OLLAMA_LATCH \<notin> files g \<Longrightarrow> http (calls g) \<noteq> Status 200 \<Longrightarrow>
   await_ollama http g = await_ollama http (gate_body (g\<lparr>ready := False, calls := calls g + 1\<rparr>))"
  by (subst await_ollama.simps) (simp add: gate_check_def check_fail)

lemma await_ready: "ready (await_ollama http g)"
  by (induction http g rule: await_ollama.induct) (subst await_ollama.simps, simp)

lemma await_files_mono: "files g \<subseteq> files (await_ollama http g)"
proof (induction http g rule: await_ollama.induct)
  case (1 http g)
  show ?case
  proof (cases "ready (gate_check http g)")
    case True
    then show ?thesis by (subst await_ollama.simps) (simp add: gate_check_def)
  next
    case False
    have "files g \<subseteq> files (gate_body (gate_check http g))"
      by (auto simp: gate_body_def gate_check_def Let_def)
    with 1[OF False] False show ?thesis
      by (subst await_ollama.simps) auto
  qed
qed

lemma gate_body_fields:
  "retries (gate_body g) = retries g + 1"
  "calls (gate_body g) = calls g"
  "files (gate_body g) = (if 15 \<le> retries g then insert OLLAMA_LATCH (files g) else files g)"
  by (auto simp: gate_body_def Let_def)

lemma await_all_fail:
  assumes fail: "\<And>k. http k \<noteq> Status 200"
  shows "OLLAMA_LATCH \<notin> files g \<Longrightarrow> retries g \<le> 15 \<Longrightarrow>
     retries (await_ollama http g) = 16 \<and>
     calls (await_ollama http g) = calls g + (17 - retries g) \<and>
     files (await_ollama http g) = insert OLLAMA_LATCH (files g)"
proof (induction "15 - retries g" arbitrary: g)
  case 0
  let ?g' = "gate_body (g\<lparr>ready := False, calls := calls g + 1\<rparr>)"
  from 0 have r: "retries g = 15" by simp
  have step: "await_ollama http g = await_ollama http ?g'"
    by (rule await_retry) (use 0 fail in simp_all)
  have "OLLAMA_LATCH \<in> files ?g'" using r by (simp add: gate_body_fields)
  then have "await_ollama http ?g' = ?g'\<lparr>ready := True, calls := calls ?g' + 1\<rparr>"
    by (rule await_latch_present)
  with step have eq: "await_ollama http g = ?g'\<lparr>ready := True, calls := calls ?g' + 1\<rparr>"
    by (rule trans)
  show ?case unfolding eq using r by (simp add: gate_body_fields)
next
  case (Suc n)
  let ?g' = "gate_body (g\<lparr>ready := False, calls := calls g + 1\<rparr>)"
  from Suc have r: "retries g < 15" by simp
  have step: "await_ollama http g = await_ollama http ?g'"
    by (rule await_retry) (use Suc fail in simp_all)
  have "n = 15 - retries ?g'" using Suc r by (simp add: gate_body_fields)
  moreover have "OLLAMA_LATCH \<notin> files ?g'" using Suc r by (simp add: gate_body_fields)
  moreover have "retries ?g' \<le> 15" using r by (simp add: gate_body_fields)
  ultimately have "retries (await_ollama http ?g') = 16 \<and>
     calls (await_ollama http ?g') = calls ?g' + (17 - retries ?g') \<and>
     files (await_ollama http ?g') = insert OLLAMA_LATCH (files ?g')"
    by (rule Suc.hyps(1))
  then show ?case unfolding step using r by (simp add: gate_body_fields)
qed

lemma await_third:
  assumes "http 0 \<noteq> Status 200" "http 1 \<noteq> Status 200" "http 2 = Status 200"
    and "OLLAMA_LATCH \<notin> fs"
  shows "await_ollama http (gate0 fs) =
     \<lparr>retries = 2, calls = 3, ready = True, files = fs,
      trace = [Console Log_OllamaNotReady, Sleep 2000, Sleep 2000]\<rparr>"
proof -
  have h2: "http (Suc (Suc 0)) = Status 200"
    using assms(3) by (simp add: numeral_2_eq_2)
  show ?thesis
    using assms(1,2,4) h2
    apply (subst await_ollama.simps)
    apply (simp add: gate_check_def gate0_def check_fail gate_body_def)
    apply (subst await_ollama.simps)
    apply (simp add: gate_check_def check_fail gate_body_def)
    apply (subst await_ollama.simps)
    apply (simp add: gate_check_def check_ok)
    done
qed

lemma await_retries_bound:
  "retries g \<le> 15 \<or> retries g \<le> 16 \<and> OLLAMA_LATCH \<in> files g \<Longrightarrow>
   retries (await_ollama http g) \<le> 16"
proof (induction http g rule: await_ollama.induct)
  case (1 http g)
  show ?case
  proof (cases "ready (gate_check http g)")
    case True
    with 1(2) show ?thesis
      by (subst await_ollama.simps) (auto simp: gate_check_def)
  next
    case False
    then have nl: "OLLAMA_LATCH \<notin> files g"
      by (auto simp: gate_check_def check_latch)
    with 1(2) have r: "retries g \<le> 15" by auto
    have "retries (gate_body (gate_check http g)) \<le> 15 \<or>
          retries (gate_body (gate_check http g)) \<le> 16 \<and>
          OLLAMA_LATCH \<in> files (gate_body (gate_check http g))"
      using r by (auto simp: gate_body_fields gate_check_def)
    from 1(1)[OF False this] False show ?thesis
      by (subst await_ollama.simps) simp
  qed
qed

text \<open>
  Claim C5. Take a file system without the marker file. If no HTTP request ever gets
  status 200, the loop of \<^verbatim>\<open>main\<close> ends with a ready result: the test
  \<^verbatim>\<open>retries > 15\<close> lets it make 16 failed attempts, the 16th writes the marker
  file, and the 17th call of \<^verbatim>\<open>checkOllamaReady\<close> returns true. If the first request
  with status 200 is the third one, the loop ends ready after exactly three calls, and
  it leaves the file system as it was, with no file written. Sixteen is the largest
  number of retries the loop makes, whatever the HTTP requests answer.
\<close>

theorem gate_forced_or_third:
  assumes "OLLAMA_LATCH \<notin> fs"
  shows "((\<forall>k. http k \<noteq> Status 200) \<longrightarrow>
            ready (await_ollama http (gate0 fs)) \<and>
            retries (await_ollama http (gate0 fs)) = 16 \<and>
            calls (await_ollama http (gate0 fs)) = 17 \<and>
            files (await_ollama http (gate0 fs)) = insert OLLAMA_LATCH fs)
       \<and> (http 0 \<noteq> Status 200 \<and> http 1 \<noteq> Status 200 \<and> http 2 = Status 200 \<longrightarrow>
            ready (await_ollama http (gate0 fs)) \<and>
            calls (await_ollama http (gate0 fs)) = 3 \<and>
            files (await_ollama http (gate0 fs)) = fs \<and>
            (\<forall>p c. WriteFile p c \<notin> set (trace (await_ollama http (gate0 fs)))))
       \<and> retries (await_ollama http (gate0 fs)) \<le> 16"
proof (intro conjI impI)
  assume a: "\<forall>k. http k \<noteq> Status 200"
  have "retries (await_ollama http (gate0 fs)) = 16 \<and>
     calls (await_ollama http (gate0 fs)) = calls (gate0 fs) + (17 - retries (gate0 fs)) \<and>
     files (await_ollama http (gate0 fs)) = insert OLLAMA_LATCH (files (gate0 fs))"
    using a assms by (intro await_all_fail) (simp_all add: gate0_def)
  then show "retries (await_ollama http (gate0 fs)) = 16"
    "calls (await_ollama http (gate0 fs)) = 17"
    "files (await_ollama http (gate0 fs)) = insert OLLAMA_LATCH fs"
    by (simp_all add: gate0_def)
  show "ready (await_ollama http (gate0 fs))" by (rule await_ready)
next
  assume b: "http 0 \<noteq> Status 200 \<and> http 1 \<noteq> Status 200 \<and> http 2 = Status 200"
  then have e: "await_ollama http (gate0 fs) =
     \<lparr>retries = 2, calls = 3, ready = True, files = fs,
      trace = [Console Log_OllamaNotReady, Sleep 2000, Sleep 2000]\<rparr>"
    using assms by (intro await_third) simp_all
  show "ready (await_ollama http (gate0 fs))" "calls (await_ollama http (gate0 fs)) = 3"
    "files (await_ollama http (gate0 fs)) = fs"
    "\<forall>p c. WriteFile p c \<notin> set (trace (await_ollama http (gate0 fs)))"
    by (simp_all add: e)
next
  show "retries (await_ollama http (gate0 fs)) \<le> 16"
    by (rule await_retries_bound) (simp add: gate0_def)
qed

theorem gate_forced_or_third_witness:
  "OLLAMA_LATCH \<notin> ({} :: string set) \<and>
   calls (await_ollama (\<lambda>k. NetError) (gate0 {})) = 17 \<and>
   files (await_ollama (\<lambda>k. NetError) (gate0 {})) = {OLLAMA_LATCH} \<and>
   calls (await_ollama (\<lambda>k. if k = 2 then Status 200 else Status 503) (gate0 {})) = 3 \<and>
   files (await_ollama (\<lambda>k. if k = 2 then Status 200 else Status 503) (gate0 {})) = {}"
  using gate_forced_or_third [of "{}" "\<lambda>k. NetError"]
    gate_forced_or_third [of "{}" "\<lambda>k. if k = 2 then Status 200 else Status 503"]
  by simp

text \<open>
  Claim C7. If the marker file exists when the loop starts, the first call of
  \<^verbatim>\<open>checkOllamaReady\<close> returns ready whatever the HTTP requests answer, with no
  retry and no sleep. The loop never removes a file, from any state, so the marker is
  still there after \<^verbatim>\<open>main\<close>.
\<close>

theorem stale_latch_ready_at_once:
  assumes "OLLAMA_LATCH \<in> fs"
  shows "await_ollama http (gate0 fs) =
           \<lparr>retries = 0, calls = 1, ready = True, files = fs, trace = []\<rparr> \<and>
         files g \<subseteq> files (await_ollama http' g) \<and>
         OLLAMA_LATCH \<in> snd (snd (main tbl http fs srs))"
proof (intro conjI)
  have "OLLAMA_LATCH \<in> files (gate0 fs)" using assms by (simp add: gate0_def)
  then have "await_ollama http (gate0 fs) = (gate0 fs)\<lparr>ready := True, calls := calls (gate0 fs) + 1\<rparr>"
    by (rule await_latch_present)
  then show e: "await_ollama http (gate0 fs) =
           \<lparr>retries = 0, calls = 1, ready = True, files = fs, trace = []\<rparr>"
    by (simp add: gate0_def)
  show "files g \<subseteq> files (await_ollama http' g)" by (rule await_files_mono)
  show "OLLAMA_LATCH \<in> snd (snd (main tbl http fs srs))"
    using assms by (simp add: main_def e)
qed

theorem stale_latch_ready_at_once_witness:
  "OLLAMA_LATCH \<in> {OLLAMA_LATCH} \<and>
   await_ollama (\<lambda>k. NetError) (gate0 {OLLAMA_LATCH}) =
     \<lparr>retries = 0, calls = 1, ready = True, files = {OLLAMA_LATCH}, trace = []\<rparr> \<and>
   OLLAMA_LATCH \<in> snd (snd (main DEPENDENCIES (\<lambda>k. NetError) {OLLAMA_LATCH} every_child_starts))"
  using stale_latch_ready_at_once [of "{OLLAMA_LATCH}" "\<lambda>k. NetError" _ _ DEPENDENCIES every_child_starts]
  by simp

section \<open>Properties of the supervisor\<close>

lemma allDepsStarted_iff: "allDepsStarted deps live \<longleftrightarrow> set deps \<subseteq> live"
  by (auto simp: allDepsStarted_def list_all_iff)

lemma body_waits:
  "map_of tbl a = Some deps \<Longrightarrow> \<not> set deps \<subseteq> startedAgents s \<Longrightarrow>
   spawnLoop_body tbl a fs sr s =
     s\<lparr>loopAt := (loopAt s)(a := Sleeping 1000), effects := effects s @ [Sleep 1000]\<rparr>"
  by (simp add: spawnLoop_body_def allDepsStarted_iff)

lemma body_missing:
  "map_of tbl a = Some deps \<Longrightarrow> set deps \<subseteq> startedAgents s \<Longrightarrow> script a \<notin> fs \<Longrightarrow>
   spawnLoop_body tbl a fs sr s =
     s\<lparr>loopAt := (loopAt s)(a := Sleeping 5000),
       effects := effects s @
         [ExistsSync (script a), Console (Err_ScriptMissing a (script a)), Sleep 5000]\<rparr>"
  by (simp add: spawnLoop_body_def allDepsStarted_iff)

lemma body_spawns:
  "map_of tbl a = Some deps \<Longrightarrow> set deps \<subseteq> startedAgents s \<Longrightarrow> script a \<in> fs \<Longrightarrow>
   spawnLoop_body tbl a fs ChildStarted s =
     s\<lparr>startedAgents := insert a (startedAgents s),
       loopAt := (loopAt s)(a := AwaitingExit),
       handles := (handles s)(a := handles s a + 1),
       effects := effects s @
         [ExistsSync (script a), Console (Log_Starting a), SpawnNode (script a),
          RegistryAdd a]\<rparr>"
  by (simp add: spawnLoop_body_def allDepsStarted_iff)

lemma body_fails:
  "map_of tbl a = Some deps \<Longrightarrow> set deps \<subseteq> startedAgents s \<Longrightarrow> script a \<in> fs \<Longrightarrow>
   spawnLoop_body tbl a fs LaunchFailed s =
     s\<lparr>startedAgents := insert a (startedAgents s),
       loopAt := (loopAt s)(a := AwaitingFailed),
       fatal := True,
       effects := effects s @
         [ExistsSync (script a), Console (Log_Starting a), SpawnNode (script a),
          RegistryAdd a]\<rparr>"
  by (simp add: spawnLoop_body_def allDepsStarted_iff)

lemma body_throws:
  "map_of tbl a = Some deps \<Longrightarrow> set deps \<subseteq> startedAgents s \<Longrightarrow> script a \<in> fs \<Longrightarrow>
   spawnLoop_body tbl a fs SpawnThrew s =
     s\<lparr>loopAt := (loopAt s)(a := Rejected),
       effects := effects s @
         [ExistsSync (script a), Console (Log_Starting a), SpawnNode (script a)]\<rparr>"
  by (simp add: spawnLoop_body_def allDepsStarted_iff)

lemma body_rejected:
  "map_of tbl a = None \<Longrightarrow>
   spawnLoop_body tbl a fs sr s = s\<lparr>loopAt := (loopAt s)(a := Rejected)\<rparr>"
  by (simp add: spawnLoop_body_def)

lemmas body_simps = body_rejected body_waits body_missing body_spawns body_fails body_throws

lemma body_cases [case_names rejected waits missing spawns fails throws]:
  assumes "map_of tbl a = None \<Longrightarrow> P"
    and "\<And>deps. map_of tbl a = Some deps \<Longrightarrow> \<not> set deps \<subseteq> startedAgents s \<Longrightarrow> P"
    and "\<And>deps. map_of tbl a = Some deps \<Longrightarrow> set deps \<subseteq> startedAgents s \<Longrightarrow> script a \<notin> fs \<Longrightarrow> P"
    and "\<And>deps. map_of tbl a = Some deps \<Longrightarrow> set deps \<subseteq> startedAgents s \<Longrightarrow> script a \<in> fs \<Longrightarrow>
           sr = ChildStarted \<Longrightarrow> P"
    and "\<And>deps. map_of tbl a = Some deps \<Longrightarrow> set deps \<subseteq> startedAgents s \<Longrightarrow> script a \<in> fs \<Longrightarrow>
           sr = LaunchFailed \<Longrightarrow> P"
    and "\<And>deps. map_of tbl a = Some deps \<Longrightarrow> set deps \<subseteq> startedAgents s \<Longrightarrow> script a \<in> fs \<Longrightarrow>
           sr = SpawnThrew \<Longrightarrow> P"
  shows P
proof (cases "map_of tbl a")
  case None
  then show P by (rule assms(1))
next
  case (Some deps)
  show P
  proof (cases "set deps \<subseteq> startedAgents s")
    case False
    with Some show P by (rule assms(2))
  next
    case live: True
    show P
    proof (cases "script a \<in> fs")
      case False
      with Some live show P by (rule assms(3))
    next
      case True
      with Some live show P
        by (cases sr) (rule assms(4), assumption+, rule assms(5), assumption+,
                       rule assms(6), assumption+)
    qed
  qed
qed

lemma body_other:
  "b \<noteq> a \<Longrightarrow> loopAt (spawnLoop_body tbl a fs sr s) b = loopAt s b"
  "b \<noteq> a \<Longrightarrow> handles (spawnLoop_body tbl a fs sr s) b = handles s b"
  "b \<noteq> a \<Longrightarrow> (b \<in> startedAgents (spawnLoop_body tbl a fs sr s)) = (b \<in> startedAgents s)"
  by (cases rule: body_cases[where tbl=tbl and a=a and s=s and fs="fs" and sr=sr];
      simp add: body_simps)+

text \<open>
  Claim C1. The dependency check is membership of every declared dependency in
  \<^verbatim>\<open>startedAgents\<close>. A pass through the body of \<^verbatim>\<open>spawnLoop\<close> that
  spawns a process (the count of live children of the agent changes, the loop ends up
  waiting for an exit, or a \<open>SpawnNode\<close> is among the new effects) had every declared
  dependency of the agent in the set in the state it started from; and the only event
  other than an exit of the agent that changes its count of children is a pass of its
  own loop, with all its dependencies live.
\<close>

theorem launch_only_with_live_deps:
  "(allDepsStarted deps live \<longleftrightarrow> (\<forall>d\<in>set deps. d \<in> live)) \<and>
   (handles (spawnLoop_body tbl a fs sr s) a \<noteq> handles s a \<or>
    loopAt (spawnLoop_body tbl a fs sr s) a = AwaitingExit \<or>
    effects (spawnLoop_body tbl a fs sr s) = effects s @ es \<and> SpawnNode p \<in> set es
      \<longrightarrow> (\<exists>ds. map_of tbl a = Some ds \<and> (\<forall>d\<in>set ds. d \<in> startedAgents s))) \<and>
   (step tbl ev s = Some s' \<and> handles s' a \<noteq> handles s a \<and> (\<forall>c. ev \<noteq> ProcExit a c)
      \<longrightarrow> (\<exists>fs' sr' ds. ev = Wake a fs' sr' \<and> map_of tbl a = Some ds \<and>
                     (\<forall>d\<in>set ds. d \<in> startedAgents s)))"
proof (intro conjI)
  show "allDepsStarted deps live \<longleftrightarrow> (\<forall>d\<in>set deps. d \<in> live)"
    by (auto simp: allDepsStarted_iff)
  show "handles (spawnLoop_body tbl a fs sr s) a \<noteq> handles s a \<or>
    loopAt (spawnLoop_body tbl a fs sr s) a = AwaitingExit \<or>
    effects (spawnLoop_body tbl a fs sr s) = effects s @ es \<and> SpawnNode p \<in> set es
      \<longrightarrow> (\<exists>ds. map_of tbl a = Some ds \<and> (\<forall>d\<in>set ds. d \<in> startedAgents s))"
    by (cases rule: body_cases[where tbl=tbl and a=a and s=s and fs="fs" and sr=sr])
       (auto simp: body_simps)
  show "step tbl ev s = Some s' \<and> handles s' a \<noteq> handles s a \<and> (\<forall>c. ev \<noteq> ProcExit a c)
      \<longrightarrow> (\<exists>fs' sr' ds. ev = Wake a fs' sr' \<and> map_of tbl a = Some ds \<and>
                     (\<forall>d\<in>set ds. d \<in> startedAgents s))"
  proof (cases ev)
    case (Wake b fs' sr')
    show ?thesis
      by (cases rule: body_cases[where tbl=tbl and a=b and s=s and fs="fs'" and sr=sr'])
         (auto simp: Wake body_simps
               split: loop_state.splits if_splits)
  next
    case (ProcExit b c)
    then show ?thesis by (auto simp: on_exit_def split: if_splits)
  qed
qed

theorem launch_only_with_live_deps_witness:
  "handles (spawnLoop_body [(''B'', [''A''])] ''B'' {script ''B''} ChildStarted (sys0\<lparr>startedAgents := {''A''}\<rparr>)) ''B''
     \<noteq> handles (sys0\<lparr>startedAgents := {''A''}\<rparr>) ''B'' \<and>
   (\<exists>ds. map_of [(''B'', [''A''])] ''B'' = Some ds \<and>
         (\<forall>d\<in>set ds. d \<in> startedAgents (sys0\<lparr>startedAgents := {''A''}\<rparr>)))"
  using launch_only_with_live_deps [where tbl="[(''B'', [''A''])]" and a="''B''"
      and fs="{script ''B''}" and sr=ChildStarted and s="sys0\<lparr>startedAgents := {''A''}\<rparr>"]
  by (simp add: spawnLoop_body_def sys0_def allDepsStarted_def)

text \<open>
  Claim C10. A pass through the body of \<^verbatim>\<open>spawnLoop\<close> tests the dependencies
  first. While a declared dependency of the agent is missing from
  \<^verbatim>\<open>startedAgents\<close> the pass ends in the one-second sleep and does nothing else: no
  \<^verbatim>\<open>fs.existsSync\<close>, no console line, and the result is the same on every file
  system. Conversely, a pass that tests for the script or reports it missing had all the
  dependencies of the agent live, and the test for the script is the first thing it did.
\<close>

theorem deps_checked_before_script:
  "(map_of tbl a = Some deps \<and> d \<in> set deps \<and> d \<notin> startedAgents s \<longrightarrow>
      spawnLoop_body tbl a fs sr s =
        s\<lparr>loopAt := (loopAt s)(a := Sleeping 1000), effects := effects s @ [Sleep 1000]\<rparr> \<and>
      spawnLoop_body tbl a fs sr s = spawnLoop_body tbl a fs' sr s) \<and>
   (effects (spawnLoop_body tbl a fs sr s) = effects s @ es \<and>
    (ExistsSync p \<in> set es \<or> Console (Err_ScriptMissing b p) \<in> set es) \<longrightarrow>
      (\<exists>ds. map_of tbl a = Some ds \<and> (\<forall>d\<in>set ds. d \<in> startedAgents s)) \<and>
      hd es = ExistsSync (script a))"
proof (intro conjI impI)
  assume h: "map_of tbl a = Some deps \<and> d \<in> set deps \<and> d \<notin> startedAgents s"
  then have n: "\<not> set deps \<subseteq> startedAgents s" by blast
  from h n show "spawnLoop_body tbl a fs sr s =
        s\<lparr>loopAt := (loopAt s)(a := Sleeping 1000), effects := effects s @ [Sleep 1000]\<rparr>"
    by (simp add: body_waits)
  from h n show "spawnLoop_body tbl a fs sr s = spawnLoop_body tbl a fs' sr s"
    by (simp add: body_waits)
next
  assume h: "effects (spawnLoop_body tbl a fs sr s) = effects s @ es \<and>
    (ExistsSync p \<in> set es \<or> Console (Err_ScriptMissing b p) \<in> set es)"
  then show "\<exists>ds. map_of tbl a = Some ds \<and> (\<forall>d\<in>set ds. d \<in> startedAgents s)"
    by (cases rule: body_cases[where tbl=tbl and a=a and s=s and fs="fs" and sr=sr])
       (auto simp: body_simps)
  from h show "hd es = ExistsSync (script a)"
    by (cases rule: body_cases[where tbl=tbl and a=a and s=s and fs="fs" and sr=sr])
       (auto simp: body_simps)
qed

theorem deps_checked_before_script_witness:
  "spawnLoop_body [(''B'', [''A''])] ''B'' {} ChildStarted sys0 =
     sys0\<lparr>loopAt := (loopAt sys0)(''B'' := Sleeping 1000), effects := effects sys0 @ [Sleep 1000]\<rparr> \<and>
   spawnLoop_body [(''B'', [''A''])] ''B'' {} ChildStarted sys0 =
     spawnLoop_body [(''B'', [''A''])] ''B'' {script ''B''} ChildStarted sys0 \<and>
   (\<exists>ds. map_of [(''A'', [])] ''A'' = Some ds \<and> (\<forall>d\<in>set ds. d \<in> startedAgents sys0)) \<and>
   hd [ExistsSync (script ''A''), Console (Err_ScriptMissing ''A'' (script ''A'')), Sleep 5000]
     = ExistsSync (script ''A'')"
  using deps_checked_before_script [where tbl="[(''B'', [''A''])]" and a="''B''"
      and deps="[''A'']" and d="''A''" and s=sys0 and fs="{}" and fs'="{script ''B''}"
      and sr=ChildStarted]
    deps_checked_before_script [where tbl="[(''A'', [])]" and a="''A''" and s=sys0 and fs="{}"
      and sr=ChildStarted
      and es="[ExistsSync (script ''A''), Console (Err_ScriptMissing ''A'' (script ''A'')), Sleep 5000]"
      and p="script ''A''" and b="''A''"]
  by (simp add: sys0_def spawnLoop_body_def allDepsStarted_def)



lemma foldl_invariant:
  assumes "P s" and "\<And>s x. P s \<Longrightarrow> P (f s x)"
  shows "P (foldl f s xs)"
  using assms(1) by (induction xs arbitrary: s) (simp_all add: assms(2))

lemma run_invariant:
  assumes "run tbl evs s = Some s'" and "P s"
    and "\<And>ev s s'. P s \<Longrightarrow> step tbl ev s = Some s' \<Longrightarrow> P s'"
  shows "P s'"
  using assms(1,2)
proof (induction evs arbitrary: s)
  case Nil
  then show ?case by simp
next
  case (Cons ev evs)
  then obtain s1 where s1: "step tbl ev s = Some s1" "run tbl evs s1 = Some s'"
    by (auto split: option.splits)
  from assms(3)[OF Cons.prems(2) s1(1)] have "P s1" .
  with Cons.IH s1(2) show ?case by blast
qed

lemma step_Wake_Some:
  "step tbl (Wake a fs sr) s = Some s' \<Longrightarrow>
   \<not> fatal s \<and> (\<exists>ms. loopAt s a = Sleeping ms) \<and> s' = spawnLoop_body tbl a fs sr s"
  by (auto split: loop_state.splits if_splits)

lemma step_ProcExit_Some:
  "step tbl (ProcExit a code) s = Some s' \<Longrightarrow>
   \<not> fatal s \<and> 0 < handles s a \<and> s' = on_exit a code s"
  by (auto split: if_splits)

lemma absent_until_own_pass:
  "run tbl evs s = Some s' \<Longrightarrow> a \<notin> startedAgents s \<Longrightarrow> \<forall>fs sr. Wake a fs sr \<notin> set evs \<Longrightarrow>
   a \<notin> startedAgents s'"
proof (induction evs arbitrary: s)
  case Nil
  then show ?case by simp
next
  case (Cons ev evs)
  then obtain s1 where s1: "step tbl ev s = Some s1" "run tbl evs s1 = Some s'"
    by (auto split: option.splits)
  have "a \<notin> startedAgents s1"
  proof (cases ev)
    case (Wake b fs sr)
    with Cons.prems(3) have "a \<noteq> b" by auto
    moreover from s1(1) Wake have "s1 = spawnLoop_body tbl b fs sr s"
      using step_Wake_Some by blast
    ultimately show ?thesis using Cons.prems(2) by (simp add: body_other)
  next
    case (ProcExit b c)
    with s1(1) have "s1 = on_exit b c s"
      using step_ProcExit_Some by blast
    with Cons.prems(2) show ?thesis by (simp add: on_exit_def)
  qed
  with Cons.IH[OF s1(2)] Cons.prems(3) show ?case by simp
qed

text \<open>
  Claim C4. The exit handler of a child of agent \<open>a\<close> is one transition: in the
  state it leaves, \<open>a\<close> is out of \<^verbatim>\<open>startedAgents\<close>, the restart timer of two
  seconds is set (after the log line, as the last effect) and the loop of \<open>a\<close> is
  suspended on it. Whatever happens next, as long as the loop of \<open>a\<close> itself has not gone
  through its body again, \<open>a\<close> stays out of the set, and the dependency check of every
  agent that declares \<open>a\<close> fails.
\<close>

theorem exit_clears_registry_at_once:
  assumes "step tbl (ProcExit a code) s = Some s1"
    and "run tbl evs s1 = Some s2"
    and "\<forall>fs sr. Wake a fs sr \<notin> set evs"
  shows "a \<notin> startedAgents s1 \<and>
         loopAt s1 a = Sleeping 2000 \<and>
         effects s1 = effects s @
           [Console (Log_Exited a code), RegistryDelete a, SetTimeout 2000] \<and>
         a \<notin> startedAgents s2 \<and>
         (\<forall>b deps. map_of tbl b = Some deps \<and> a \<in> set deps \<longrightarrow>
            \<not> allDepsStarted deps (startedAgents s2))"
proof -
  from assms(1) have s1: "s1 = on_exit a code s" using step_ProcExit_Some by blast
  then have a1: "a \<notin> startedAgents s1" by (simp add: on_exit_def)
  from absent_until_own_pass[OF assms(2) a1 assms(3)] have a2: "a \<notin> startedAgents s2" .
  from s1 a1 a2 show ?thesis
    by (auto simp: on_exit_def allDepsStarted_iff)
qed

theorem exit_clears_registry_at_once_witness:
  "step [(''A'', []), (''B'', [''A''])] (ProcExit ''A'' (Some 1))
     (boot [(''A'', []), (''B'', [''A''])] {script ''A''} every_child_starts)
     = Some (on_exit ''A'' (Some 1) (boot [(''A'', []), (''B'', [''A''])] {script ''A''} every_child_starts)) \<and>
   ''A'' \<in> startedAgents (boot [(''A'', []), (''B'', [''A''])] {script ''A''} every_child_starts) \<and>
   ''A'' \<notin> startedAgents (on_exit ''A'' (Some 1) (boot [(''A'', []), (''B'', [''A''])] {script ''A''} every_child_starts)) \<and>
   \<not> allDepsStarted [''A'']
       (startedAgents (on_exit ''A'' (Some 1) (boot [(''A'', []), (''B'', [''A''])] {script ''A''} every_child_starts)))"
  using exit_clears_registry_at_once [of "[(''A'', []), (''B'', [''A''])]" "''A''" "Some 1"
      "boot [(''A'', []), (''B'', [''A''])] {script ''A''} every_child_starts"
      "on_exit ''A'' (Some 1) (boot [(''A'', []), (''B'', [''A''])] {script ''A''} every_child_starts)"
      "[]" "on_exit ''A'' (Some 1) (boot [(''A'', []), (''B'', [''A''])] {script ''A''} every_child_starts)"]
  by (simp add: boot_def Object_keys_def startAgent_def every_child_starts_def spawnLoop_body_def sys0_def
        allDepsStarted_def on_exit_def)

lemma one_child_body:
  "one_child s \<Longrightarrow> loopAt s a \<noteq> AwaitingExit \<Longrightarrow> one_child (spawnLoop_body tbl a fs sr s)"
  by (cases rule: body_cases[where tbl=tbl and a=a and s=s and fs="fs" and sr=sr])
     (auto simp: one_child_def body_simps)

lemma one_child_step:
  assumes "one_child s" and "step tbl ev s = Some s'"
  shows "one_child s'"
proof (cases ev)
  case (Wake a fs sr)
  with assms(2) obtain ms where "loopAt s a = Sleeping ms" "s' = spawnLoop_body tbl a fs sr s"
    using step_Wake_Some by blast
  with assms(1) show ?thesis by (simp add: one_child_body)
next
  case (ProcExit a c)
  with assms(2) have "0 < handles s a" "s' = on_exit a c s"
    using step_ProcExit_Some by blast+
  with assms(1) show ?thesis
    by (auto simp: one_child_def on_exit_def split: if_splits)
qed

lemma one_child_forEach:
  "one_child s \<Longrightarrow> distinct as \<Longrightarrow> \<forall>a\<in>set as. loopAt s a = NotStarted \<Longrightarrow>
   one_child (foldl (\<lambda>s agentName. startAgent tbl fs srs agentName s) s as)"
proof (induction as arbitrary: s)
  case Nil
  then show ?case by simp
next
  case (Cons a as)
  have 1: "one_child (startAgent tbl fs srs a s)"
    using Cons.prems by (simp add: startAgent_def one_child_body)
  have 2: "\<forall>b\<in>set as. loopAt (startAgent tbl fs srs a s) b = NotStarted"
  proof
    fix b assume b: "b \<in> set as"
    with Cons.prems(2) have "b \<noteq> a" by auto
    with b Cons.prems(3) show "loopAt (startAgent tbl fs srs a s) b = NotStarted"
      by (simp add: startAgent_def body_other)
  qed
  from Cons.IH[OF 1 _ 2] Cons.prems(2) show ?case by simp
qed

lemma one_child_boot: "distinct (Object_keys tbl) \<Longrightarrow> one_child (boot tbl fs srs)"
  unfolding boot_def by (rule one_child_forEach) (simp_all add: one_child_def sys0_def)

text \<open>
  Claim C2. The keys of an object are distinct, so \<^verbatim>\<open>startAgent\<close> runs once for
  each name. In every state the supervisor reaches after \<^verbatim>\<open>main\<close>, an agent has at
  most one running child that has not exited; it has one exactly when its loop waits
  for the \<^verbatim>\<open>exit\<close> event of a child that started; and while it has one, its loop
  cannot go through its body, so it cannot spawn another.
\<close>

theorem at_most_one_child_per_agent:
  assumes "distinct (Object_keys tbl)" and "run tbl evs (boot tbl fs srs) = Some s"
  shows "handles s a \<le> 1 \<and>
         (handles s a = 1 \<longleftrightarrow> loopAt s a = AwaitingExit) \<and>
         (0 < handles s a \<longrightarrow> step tbl (Wake a fs' sr) s = None)"
proof -
  have "one_child s"
    using assms(2) one_child_boot[OF assms(1)] one_child_step
    by (rule run_invariant)
  then show ?thesis by (auto simp: one_child_def split: if_splits)
qed

theorem at_most_one_child_per_agent_witness:
  "distinct (Object_keys [(''A'', []), (''B'', [''A''])]) \<and>
   run [(''A'', []), (''B'', [''A''])] [ProcExit ''A'' (Some 1), Wake ''A'' {script ''A''} ChildStarted]
     (boot [(''A'', []), (''B'', [''A''])] {script ''A''} every_child_starts)
     = Some (spawnLoop_body [(''A'', []), (''B'', [''A''])] ''A'' {script ''A''} ChildStarted
         (on_exit ''A'' (Some 1) (boot [(''A'', []), (''B'', [''A''])] {script ''A''} every_child_starts))) \<and>
   handles (spawnLoop_body [(''A'', []), (''B'', [''A''])] ''A'' {script ''A''} ChildStarted
         (on_exit ''A'' (Some 1) (boot [(''A'', []), (''B'', [''A''])] {script ''A''} every_child_starts))) ''A'' = 1 \<and>
   step [(''A'', []), (''B'', [''A''])] (Wake ''A'' {script ''A''} ChildStarted)
     (spawnLoop_body [(''A'', []), (''B'', [''A''])] ''A'' {script ''A''} ChildStarted
         (on_exit ''A'' (Some 1) (boot [(''A'', []), (''B'', [''A''])] {script ''A''} every_child_starts))) = None"
  using at_most_one_child_per_agent [where tbl="[(''A'', []), (''B'', [''A''])]"
      and evs="[ProcExit ''A'' (Some 1), Wake ''A'' {script ''A''} ChildStarted]"
      and fs="{script ''A''}" and srs=every_child_starts
      and s="spawnLoop_body [(''A'', []), (''B'', [''A''])] ''A'' {script ''A''} ChildStarted
         (on_exit ''A'' (Some 1) (boot [(''A'', []), (''B'', [''A''])] {script ''A''} every_child_starts))"
      and a="''A''" and fs'="{script ''A''}" and sr=ChildStarted]
  by (simp add: boot_def Object_keys_def startAgent_def every_child_starts_def spawnLoop_body_def sys0_def
        allDepsStarted_def on_exit_def)

lemma step_effects:
  assumes "step tbl ev s = Some s'"
  shows "\<exists>es. effects s' = effects s @ es \<and>
              (startedAgents s' \<noteq> startedAgents s \<longrightarrow> (\<exists>x\<in>set es. marks_registry x))"
proof (cases ev)
  case (Wake a fs sr)
  with assms have s': "s' = spawnLoop_body tbl a fs sr s"
    using step_Wake_Some by blast
  show ?thesis unfolding s'
    by (cases rule: body_cases[where tbl=tbl and a=a and s=s and fs="fs" and sr=sr])
       (simp_all add: body_simps)
next
  case (ProcExit a c)
  with assms have "s' = on_exit a c s"
    using step_ProcExit_Some by blast
  then show ?thesis by (simp add: on_exit_def)
qed

lemma run_effects:
  "run tbl evs s = Some s' \<Longrightarrow>
   \<exists>es. effects s' = effects s @ es \<and>
        (startedAgents s' \<noteq> startedAgents s \<longrightarrow> (\<exists>x\<in>set es. marks_registry x))"
proof (induction evs arbitrary: s)
  case Nil
  then show ?case by simp
next
  case (Cons ev evs)
  then obtain s1 where s1: "step tbl ev s = Some s1" "run tbl evs s1 = Some s'"
    by (auto split: option.splits)
  from step_effects[OF s1(1)] obtain e1 where e1: "effects s1 = effects s @ e1"
    "startedAgents s1 \<noteq> startedAgents s \<longrightarrow> (\<exists>x\<in>set e1. marks_registry x)" by blast
  from Cons.IH[OF s1(2)] obtain e2 where e2: "effects s' = effects s1 @ e2"
    "startedAgents s' \<noteq> startedAgents s1 \<longrightarrow> (\<exists>x\<in>set e2. marks_registry x)" by blast
  have "effects s' = effects s @ (e1 @ e2)" using e1(1) e2(1) by simp
  moreover have "startedAgents s' \<noteq> startedAgents s \<longrightarrow> (\<exists>x\<in>set (e1 @ e2). marks_registry x)"
    using e1(2) e2(2) by auto
  ultimately show ?case by blast
qed

text \<open>
  Claim C9. The module reads \<^verbatim>\<open>startedAgents\<close> in the dependency check only, and
  the check does not change it. Over any stretch of events in which no child is
  marked live and none is marked dead (no \<open>RegistryAdd\<close> and no \<open>RegistryDelete\<close>
  among the effects of the stretch), the set read at the end is the set read at the beginning, and every
  dependency check gives the same answer on both.
\<close>

theorem registry_reads_stable:
  assumes "run tbl evs s = Some s'"
    and "\<forall>x\<in>set (drop (length (effects s)) (effects s')). \<not> marks_registry x"
  shows "startedAgents s' = startedAgents s \<and>
         allDepsStarted deps (startedAgents s') = allDepsStarted deps (startedAgents s)"
proof -
  from run_effects[OF assms(1)] obtain es where es: "effects s' = effects s @ es"
    "startedAgents s' \<noteq> startedAgents s \<longrightarrow> (\<exists>x\<in>set es. marks_registry x)" by blast
  from es(1) assms(2) have "\<forall>x\<in>set es. \<not> marks_registry x" by simp
  with es(2) show ?thesis by auto
qed

theorem registry_reads_stable_witness:
  "run [(''A'', []), (''B'', [''A''])] [Wake ''B'' {} ChildStarted, Wake ''B'' {} ChildStarted]
     (boot [(''A'', []), (''B'', [''A''])] {script ''A''} every_child_starts)
   = Some ((boot [(''A'', []), (''B'', [''A''])] {script ''A''} every_child_starts)
       \<lparr>loopAt := (loopAt (boot [(''A'', []), (''B'', [''A''])] {script ''A''} every_child_starts))(''B'' := Sleeping 5000),
        effects := effects (boot [(''A'', []), (''B'', [''A''])] {script ''A''} every_child_starts) @
          [ExistsSync (script ''B''), Console (Err_ScriptMissing ''B'' (script ''B'')), Sleep 5000,
           ExistsSync (script ''B''), Console (Err_ScriptMissing ''B'' (script ''B'')), Sleep 5000]\<rparr>) \<and>
   startedAgents ((boot [(''A'', []), (''B'', [''A''])] {script ''A''} every_child_starts)
       \<lparr>loopAt := (loopAt (boot [(''A'', []), (''B'', [''A''])] {script ''A''} every_child_starts))(''B'' := Sleeping 5000),
        effects := effects (boot [(''A'', []), (''B'', [''A''])] {script ''A''} every_child_starts) @
          [ExistsSync (script ''B''), Console (Err_ScriptMissing ''B'' (script ''B'')), Sleep 5000,
           ExistsSync (script ''B''), Console (Err_ScriptMissing ''B'' (script ''B'')), Sleep 5000]\<rparr>)
     = {''A''}"
  using registry_reads_stable [of "[(''A'', []), (''B'', [''A''])]" "[Wake ''B'' {} ChildStarted, Wake ''B'' {} ChildStarted]"
      "boot [(''A'', []), (''B'', [''A''])] {script ''A''} every_child_starts"
      "(boot [(''A'', []), (''B'', [''A''])] {script ''A''} every_child_starts)
       \<lparr>loopAt := (loopAt (boot [(''A'', []), (''B'', [''A''])] {script ''A''} every_child_starts))(''B'' := Sleeping 5000),
        effects := effects (boot [(''A'', []), (''B'', [''A''])] {script ''A''} every_child_starts) @
          [ExistsSync (script ''B''), Console (Err_ScriptMissing ''B'' (script ''B'')), Sleep 5000,
           ExistsSync (script ''B''), Console (Err_ScriptMissing ''B'' (script ''B'')), Sleep 5000]\<rparr>"]
  by (simp add: boot_def Object_keys_def startAgent_def every_child_starts_def spawnLoop_body_def sys0_def
        allDepsStarted_def script_def toLowerCase_def)

lemma never_launched_body:
  assumes "never_launched a s" and "b = a \<longrightarrow> script a \<notin> fs"
  shows "never_launched a (spawnLoop_body tbl b fs sr s)"
  using assms
  by (cases rule: body_cases[where tbl=tbl and a=b and s=s and fs=fs and sr=sr])
     (auto simp: never_launched_def body_simps)

lemma retrying_body:
  assumes "map_of tbl a \<noteq> None" and "script a \<notin> fs"
  shows "loopAt (spawnLoop_body tbl a fs sr s) a = Sleeping 1000 \<or>
         loopAt (spawnLoop_body tbl a fs sr s) a = Sleeping 5000"
  using assms
  by (cases rule: body_cases[where tbl=tbl and a=a and s=s and fs=fs and sr=sr])
     (auto simp: body_simps)

lemma retrying_forEach:
  assumes "map_of tbl a \<noteq> None" and "script a \<notin> fs"
  shows "never_launched a s \<Longrightarrow> a \<in> set as \<or> retrying a s \<Longrightarrow>
         retrying a (foldl (\<lambda>s agentName. startAgent tbl fs srs agentName s) s as)"
proof (induction as arbitrary: s)
  case Nil
  then show ?case by simp
next
  case (Cons b as)
  have n: "never_launched a (startAgent tbl fs srs b s)"
    using Cons.prems(1) assms(2) by (simp add: startAgent_def never_launched_body)
  have "a \<in> set as \<or> retrying a (startAgent tbl fs srs b s)"
  proof (cases "b = a")
    case True
    with n retrying_body[OF assms, of "srs a" s] show ?thesis
      by (simp add: retrying_def startAgent_def)
  next
    case False
    with Cons.prems(2) n show ?thesis
      by (auto simp: retrying_def startAgent_def body_other)
  qed
  from Cons.IH[OF n this] show ?case by simp
qed

lemma retrying_step:
  assumes "map_of tbl a \<noteq> None" and "retrying a s" and "step tbl ev s = Some s'"
    and "\<forall>fs sr. ev = Wake a fs sr \<longrightarrow> script a \<notin> fs"
  shows "retrying a s'"
proof (cases ev)
  case (Wake b fs sr)
  with assms(3) have s': "s' = spawnLoop_body tbl b fs sr s"
    using step_Wake_Some by blast
  from assms(4) Wake have m: "b = a \<longrightarrow> script a \<notin> fs" by simp
  with assms(2) have n: "never_launched a s'"
    unfolding s' by (simp add: retrying_def never_launched_body)
  show ?thesis
  proof (cases "b = a")
    case True
    with n m retrying_body[OF assms(1), of fs sr s] show ?thesis
      by (simp add: retrying_def s')
  next
    case False
    with n assms(2) show ?thesis by (simp add: retrying_def s' body_other)
  qed
next
  case (ProcExit b c)
  with assms(3) have h: "0 < handles s b" and s': "s' = on_exit b c s"
    using step_ProcExit_Some by blast+
  from h assms(2) have "b \<noteq> a" by (auto simp: retrying_def never_launched_def)
  with assms(2) show ?thesis
    by (auto simp: s' retrying_def never_launched_def on_exit_def)
qed

lemma retrying_run:
  assumes "map_of tbl a \<noteq> None"
  shows "run tbl evs s = Some s' \<Longrightarrow> retrying a s \<Longrightarrow>
         \<forall>fs sr. Wake a fs sr \<in> set evs \<longrightarrow> script a \<notin> fs \<Longrightarrow> retrying a s'"
proof (induction evs arbitrary: s)
  case Nil
  then show ?case by simp
next
  case (Cons ev evs)
  then obtain s1 where s1: "step tbl ev s = Some s1" "run tbl evs s1 = Some s'"
    by (auto split: option.splits)
  have 1: "retrying a s1"
    using assms Cons.prems(2) s1(1) by (rule retrying_step) (use Cons.prems(3) in simp)
  have 2: "\<forall>fs sr. Wake a fs sr \<in> set evs \<longrightarrow> script a \<notin> fs"
    using Cons.prems(3) by auto
  from s1(2) 1 2 show ?case by (rule Cons.IH)
qed

text \<open>
  Claim C8, as amended. Let the script of an agent of the table exist neither when
  \<^verbatim>\<open>main\<close> starts the agents nor at any later pass of its loop. Then in every state
  reached the agent is not in \<^verbatim>\<open>startedAgents\<close>, has no child and has never logged
  a start. Its loop is suspended in one of its two sleeps and, as long as the supervisor
  process runs, can go through its body again. Such a pass ends in the one-second
  sleep, with no test for the script and no log, while a declared dependency is not
  live; once they are all live it tests for the script, logs that it is missing and
  sleeps five seconds. The condition is recoverable: at a pass where the script is
  there and the dependencies are live, a child that starts puts the agent in the set.
\<close>

theorem missing_script_retries_forever:
  assumes "a \<in> set (Object_keys tbl)" and "script a \<notin> fs0"
    and "run tbl evs (boot tbl fs0 srs) = Some s"
    and "\<forall>fs sr. Wake a fs sr \<in> set evs \<longrightarrow> script a \<notin> fs"
  shows "a \<notin> startedAgents s \<and> handles s a = 0 \<and>
         Console (Log_Starting a) \<notin> set (effects s) \<and>
         (loopAt s a = Sleeping 1000 \<or> loopAt s a = Sleeping 5000) \<and>
         (\<not> fatal s \<longrightarrow> step tbl (Wake a fs sr) s = Some (spawnLoop_body tbl a fs sr s)) \<and>
         (script a \<notin> fs \<and> map_of tbl a = Some deps \<and> (\<exists>d\<in>set deps. d \<notin> startedAgents s) \<longrightarrow>
            spawnLoop_body tbl a fs sr s =
              s\<lparr>loopAt := (loopAt s)(a := Sleeping 1000),
                effects := effects s @ [Sleep 1000]\<rparr>) \<and>
         (script a \<notin> fs \<and> map_of tbl a = Some deps \<and> (\<forall>d\<in>set deps. d \<in> startedAgents s) \<longrightarrow>
            spawnLoop_body tbl a fs sr s =
              s\<lparr>loopAt := (loopAt s)(a := Sleeping 5000),
                effects := effects s @
                  [ExistsSync (script a), Console (Err_ScriptMissing a (script a)), Sleep 5000]\<rparr>) \<and>
         (script a \<in> fs \<and> map_of tbl a = Some deps \<and> (\<forall>d\<in>set deps. d \<in> startedAgents s) \<and>
          sr = ChildStarted \<longrightarrow>
            a \<in> startedAgents (spawnLoop_body tbl a fs sr s))"
proof -
  from assms(1) have m: "map_of tbl a \<noteq> None"
    by (simp add: Object_keys_def map_of_eq_None_iff)
  have "never_launched a sys0" by (simp add: never_launched_def sys0_def)
  then have "retrying a (boot tbl fs0 srs)"
    unfolding boot_def using assms(1) by (intro retrying_forEach[OF m assms(2)]) simp_all
  with assms(3) have r: "retrying a s"
    using assms(4) by (rule retrying_run[OF m])
  then have "\<not> fatal s \<longrightarrow> step tbl (Wake a fs sr) s = Some (spawnLoop_body tbl a fs sr s)"
    by (auto simp: retrying_def)
  moreover have "script a \<notin> fs \<and> map_of tbl a = Some deps \<and>
      (\<exists>d\<in>set deps. d \<notin> startedAgents s) \<longrightarrow>
        spawnLoop_body tbl a fs sr s =
          s\<lparr>loopAt := (loopAt s)(a := Sleeping 1000), effects := effects s @ [Sleep 1000]\<rparr>"
  proof
    assume h: "script a \<notin> fs \<and> map_of tbl a = Some deps \<and>
      (\<exists>d\<in>set deps. d \<notin> startedAgents s)"
    then have "\<not> set deps \<subseteq> startedAgents s" by blast
    with h show "spawnLoop_body tbl a fs sr s =
          s\<lparr>loopAt := (loopAt s)(a := Sleeping 1000), effects := effects s @ [Sleep 1000]\<rparr>"
      by (simp add: body_waits)
  qed
  ultimately show ?thesis using r
    by (auto simp: retrying_def never_launched_def body_missing body_spawns subset_iff)
qed

theorem missing_script_retries_forever_witness:
  "''B'' \<in> set (Object_keys [(''A'', []), (''B'', [''A''])]) \<and> script ''B'' \<notin> {script ''A''} \<and>
   run [(''A'', []), (''B'', [''A''])] [Wake ''B'' {script ''A''} ChildStarted]
       (boot [(''A'', []), (''B'', [''A''])] {script ''A''} every_child_starts) =
     Some (spawnLoop_body [(''A'', []), (''B'', [''A''])] ''B'' {script ''A''} ChildStarted
            (boot [(''A'', []), (''B'', [''A''])] {script ''A''} every_child_starts)) \<and>
   ''B'' \<notin> startedAgents
     (spawnLoop_body [(''A'', []), (''B'', [''A''])] ''B'' {script ''A''} ChildStarted
        (boot [(''A'', []), (''B'', [''A''])] {script ''A''} every_child_starts)) \<and>
   loopAt
     (spawnLoop_body [(''A'', []), (''B'', [''A''])] ''B'' {script ''A''} ChildStarted
        (boot [(''A'', []), (''B'', [''A''])] {script ''A''} every_child_starts)) ''B'' =
     Sleeping 5000"
proof -
  have k: "''B'' \<in> set (Object_keys [(''A'', []), (''B'', [''A''])])"
    by (simp add: Object_keys_def)
  have m: "script ''B'' \<notin> {script ''A''}"
    by (simp add: script_def toLowerCase_def)
  have r: "run [(''A'', []), (''B'', [''A''])] [Wake ''B'' {script ''A''} ChildStarted]
       (boot [(''A'', []), (''B'', [''A''])] {script ''A''} every_child_starts) =
     Some (spawnLoop_body [(''A'', []), (''B'', [''A''])] ''B'' {script ''A''} ChildStarted
            (boot [(''A'', []), (''B'', [''A''])] {script ''A''} every_child_starts))"
    using m by (simp add: boot_def Object_keys_def startAgent_def every_child_starts_def
        spawnLoop_body_def sys0_def allDepsStarted_def)
  have e: "\<forall>fs sr. Wake ''B'' fs sr \<in> set [Wake ''B'' {script ''A''} ChildStarted]
             \<longrightarrow> script ''B'' \<notin> fs"
    using m by simp
  have l: "loopAt
     (spawnLoop_body [(''A'', []), (''B'', [''A''])] ''B'' {script ''A''} ChildStarted
        (boot [(''A'', []), (''B'', [''A''])] {script ''A''} every_child_starts)) ''B'' =
     Sleeping 5000"
    using m by (simp add: boot_def Object_keys_def startAgent_def every_child_starts_def
        spawnLoop_body_def sys0_def allDepsStarted_def)
  from missing_script_retries_forever [OF k m r e] r k m l show ?thesis by blast
qed

text \<open>
  Claim C8 as stated fails for an agent with a dependency that is not live. On the
  table as shipped with no script on disk, \<^verbatim>\<open>CORE\<close> is never started, so the loop
  of \<^verbatim>\<open>WAVE\<close> stays in the one-second wait for \<^verbatim>\<open>CORE\<close>: it never tests for
  its script and never logs that it is missing.
\<close>

theorem missing_script_silent_wait_counterexample:
  "''WAVE'' \<in> set AGENTS \<and>
   run DEPENDENCIES [Wake ''WAVE'' {} ChildStarted, Wake ''WAVE'' {} ChildStarted]
       (boot DEPENDENCIES {} every_child_starts) \<noteq> None \<and>
   loopAt (the (run DEPENDENCIES [Wake ''WAVE'' {} ChildStarted, Wake ''WAVE'' {} ChildStarted]
       (boot DEPENDENCIES {} every_child_starts))) ''WAVE'' = Sleeping 1000 \<and>
   ExistsSync (script ''WAVE'') \<notin> set (effects (the
     (run DEPENDENCIES [Wake ''WAVE'' {} ChildStarted, Wake ''WAVE'' {} ChildStarted]
       (boot DEPENDENCIES {} every_child_starts)))) \<and>
   Console (Err_ScriptMissing ''WAVE'' (script ''WAVE'')) \<notin> set (effects (the
     (run DEPENDENCIES [Wake ''WAVE'' {} ChildStarted, Wake ''WAVE'' {} ChildStarted]
       (boot DEPENDENCIES {} every_child_starts))))"
  by code_simp

lemma launchable_no_cycle:
  "launchable tbl a \<Longrightarrow> (a, b) \<in> (dep_edges tbl)\<^sup>* \<Longrightarrow> (b, b) \<notin> (dep_edges tbl)\<^sup>+"
proof (induction arbitrary: b rule: launchable.induct)
  case (1 a ds)
  have via: "\<And>c. (a, c) \<in> (dep_edges tbl)\<^sup>+ \<Longrightarrow> (c, c) \<notin> (dep_edges tbl)\<^sup>+"
  proof -
    fix c assume "(a, c) \<in> (dep_edges tbl)\<^sup>+"
    then obtain d where d: "(a, d) \<in> dep_edges tbl" "(d, c) \<in> (dep_edges tbl)\<^sup>*"
      by (auto dest: tranclD)
    from d(1) 1(1) have "d \<in> set ds" by (auto simp: dep_edges_def)
    with 1(2) d(2) show "(c, c) \<notin> (dep_edges tbl)\<^sup>+" by blast
  qed
  from 1(3) have "b = a \<or> (a, b) \<in> (dep_edges tbl)\<^sup>+"
    by (auto simp: rtrancl_eq_or_trancl)
  then show ?case
  proof
    assume "b = a"
    show ?thesis
    proof
      assume "(b, b) \<in> (dep_edges tbl)\<^sup>+"
      with \<open>b = a\<close> have "(a, a) \<in> (dep_edges tbl)\<^sup>+" by simp
      from via[OF this] this show False by simp
    qed
  next
    assume "(a, b) \<in> (dep_edges tbl)\<^sup>+"
    then show ?thesis by (rule via)
  qed
qed

lemma only_launchable_body:
  assumes "only_launchable tbl s"
  shows "only_launchable tbl (spawnLoop_body tbl a fs sr s)"
proof (cases rule: body_cases[where tbl=tbl and a=a and s=s and fs="fs" and sr=sr])
  case (spawns deps)
  from spawns(2) assms have "\<forall>d\<in>set deps. launchable tbl d"
    by (auto simp: only_launchable_def)
  with spawns(1) have "launchable tbl a" by (rule launchable.intros)
  with assms spawns show ?thesis
    by (auto simp: only_launchable_def body_spawns)
next
  case (fails deps)
  from fails(2) assms have "\<forall>d\<in>set deps. launchable tbl d"
    by (auto simp: only_launchable_def)
  with fails(1) have "launchable tbl a" by (rule launchable.intros)
  with assms fails show ?thesis
    by (auto simp: only_launchable_def body_fails)
qed (use assms in \<open>auto simp: only_launchable_def body_simps\<close>)

lemma only_launchable_step:
  assumes "only_launchable tbl s" and "step tbl ev s = Some s'"
  shows "only_launchable tbl s'"
proof (cases ev)
  case (Wake a fs sr)
  with assms(2) have "s' = spawnLoop_body tbl a fs sr s"
    using step_Wake_Some by blast
  with assms(1) show ?thesis by (simp add: only_launchable_body)
next
  case (ProcExit a c)
  with assms(2) have "s' = on_exit a c s"
    using step_ProcExit_Some by blast
  with assms(1) show ?thesis
    by (auto simp: only_launchable_def on_exit_def split: if_splits)
qed

lemma only_launchable_boot: "only_launchable tbl (boot tbl fs srs)"
  unfolding boot_def
proof (rule foldl_invariant[where P="only_launchable tbl"])
  show "only_launchable tbl sys0"
    by (simp add: only_launchable_def sys0_def)
  show "\<And>s x. only_launchable tbl s \<Longrightarrow> only_launchable tbl (startAgent tbl fs srs x s)"
    by (simp add: startAgent_def only_launchable_body)
qed

lemma started_forEach:
  "a \<in> set as \<or> loopAt s a \<noteq> NotStarted \<Longrightarrow>
   loopAt (foldl (\<lambda>s agentName. startAgent tbl fs srs agentName s) s as) a \<noteq> NotStarted"
proof (induction as arbitrary: s)
  case Nil
  then show ?case by simp
next
  case (Cons b as)
  have "a \<in> set as \<or> loopAt (startAgent tbl fs srs b s) a \<noteq> NotStarted"
  proof (cases "b = a")
    case True
    show ?thesis unfolding True startAgent_def
      by (cases rule: body_cases[where tbl=tbl and a=a and s=s and fs="fs" and sr="srs a"])
         (simp_all add: body_simps)
  next
    case False
    with Cons.prems show ?thesis by (auto simp: startAgent_def body_other)
  qed
  from Cons.IH[OF this] show ?case by simp
qed

lemma dep_edges_in_table:
  "(a, d) \<in> dep_edges tbl \<Longrightarrow> \<exists>ds. (a, ds) \<in> set tbl \<and> d \<in> set ds"
  by (auto simp: dep_edges_def dest: map_of_SomeD)

lemma DEPENDENCIES_rank_table:
  "list_all (\<lambda>(a, ds). list_all (\<lambda>d. dep_rank d < dep_rank a) ds) DEPENDENCIES"
  by (simp add: DEPENDENCIES_def dep_rank_def)

lemma DEPENDENCIES_ranked: "(a, d) \<in> dep_edges DEPENDENCIES \<Longrightarrow> dep_rank d < dep_rank a"
  using dep_edges_in_table[of a d DEPENDENCIES] DEPENDENCIES_rank_table
  by (fastforce simp: list_all_iff)

lemma DEPENDENCIES_acyclic: "acyclic (dep_edges DEPENDENCIES)"
proof -
  have "(dep_edges DEPENDENCIES)\<inverse> \<subseteq> measure dep_rank"
    using DEPENDENCIES_ranked by auto
  then have "wf ((dep_edges DEPENDENCIES)\<inverse>)"
    by (rule wf_subset[OF wf_measure])
  then have "acyclic ((dep_edges DEPENDENCIES)\<inverse>)" by (rule wf_acyclic)
  then show ?thesis by simp
qed

lemma blocked_body:
  assumes "only_launchable tbl s" and "\<not> launchable tbl a" and "map_of tbl a \<noteq> None"
  shows "spawnLoop_body tbl a fs sr s =
           s\<lparr>loopAt := (loopAt s)(a := Sleeping 1000), effects := effects s @ [Sleep 1000]\<rparr>"
proof -
  from assms(3) obtain ds where ds: "map_of tbl a = Some ds" by blast
  with assms(2) obtain d where d: "d \<in> set ds" "\<not> launchable tbl d"
    using launchable.intros[of tbl a ds] by blast
  with assms(1) have "d \<notin> startedAgents s" by (auto simp: only_launchable_def)
  with d(1) have "\<not> set ds \<subseteq> startedAgents s" by blast
  with ds show ?thesis by (rule body_waits)
qed

lemma blocked_forEach:
  assumes "\<not> launchable tbl a" and "map_of tbl a \<noteq> None"
  shows "only_launchable tbl s \<Longrightarrow> a \<in> set as \<or> loopAt s a = Sleeping 1000 \<Longrightarrow>
         blocked tbl a (foldl (\<lambda>s agentName. startAgent tbl fs srs agentName s) s as)"
proof (induction as arbitrary: s)
  case Nil
  then show ?case by (simp add: blocked_def)
next
  case (Cons b as)
  have n: "only_launchable tbl (startAgent tbl fs srs b s)"
    using Cons.prems(1) by (simp add: startAgent_def only_launchable_body)
  have "a \<in> set as \<or> loopAt (startAgent tbl fs srs b s) a = Sleeping 1000"
  proof (cases "b = a")
    case True
    with blocked_body[OF Cons.prems(1) assms, of fs] show ?thesis
      by (simp add: startAgent_def)
  next
    case False
    with Cons.prems(2) show ?thesis by (auto simp: startAgent_def body_other)
  qed
  from Cons.IH[OF n this] show ?case by simp
qed

lemma blocked_step:
  assumes "\<not> launchable tbl a" and "map_of tbl a \<noteq> None"
    and "blocked tbl a s" and "step tbl ev s = Some s'"
  shows "blocked tbl a s'"
proof -
  from assms(3) have inv: "only_launchable tbl s" and at: "loopAt s a = Sleeping 1000"
    by (simp_all add: blocked_def)
  from inv assms(4) have inv': "only_launchable tbl s'" by (rule only_launchable_step)
  have "loopAt s' a = Sleeping 1000"
  proof (cases ev)
    case (Wake b fs sr)
    with assms(4) have s': "s' = spawnLoop_body tbl b fs sr s"
      using step_Wake_Some by blast
    show ?thesis
    proof (cases "b = a")
      case True
      with blocked_body[OF inv assms(1,2), of fs] show ?thesis by (simp add: s')
    next
      case False
      with at show ?thesis by (simp add: s' body_other)
    qed
  next
    case (ProcExit b c)
    with assms(4) have h: "0 < handles s b" and s': "s' = on_exit b c s"
      using step_ProcExit_Some by blast+
    from h inv assms(1) have "b \<noteq> a" by (auto simp: only_launchable_def)
    with at show ?thesis by (simp add: s' on_exit_def)
  qed
  with inv' show ?thesis by (simp add: blocked_def)
qed

text \<open>
  Claim C3, as amended. The module has no validation of the table. The table it ships
  is acyclic. For any table, \<^verbatim>\<open>main\<close> starts the loop of every key, and an agent
  that is on a dependency cycle, or that depends on an agent on one, is never started
  and never gets a child: its loop stays in the one-second wait for its dependencies.
\<close>

theorem no_cycle_validation:
  "acyclic (dep_edges DEPENDENCIES) \<and>
   (a \<in> set (Object_keys tbl) \<longrightarrow> loopAt (boot tbl fs srs) a \<noteq> NotStarted) \<and>
   ((a, b) \<in> (dep_edges tbl)\<^sup>* \<and> (b, b) \<in> (dep_edges tbl)\<^sup>+ \<and>
    run tbl evs (boot tbl fs srs) = Some s \<longrightarrow>
      a \<notin> startedAgents s \<and> handles s a = 0 \<and>
      (a \<in> set (Object_keys tbl) \<longrightarrow> loopAt s a = Sleeping 1000))"
proof (intro conjI impI)
  show "acyclic (dep_edges DEPENDENCIES)" by (rule DEPENDENCIES_acyclic)
next
  assume k: "a \<in> set (Object_keys tbl)"
  show "loopAt (boot tbl fs srs) a \<noteq> NotStarted"
    unfolding boot_def by (rule started_forEach) (use k in simp)
next
  assume h: "(a, b) \<in> (dep_edges tbl)\<^sup>* \<and> (b, b) \<in> (dep_edges tbl)\<^sup>+ \<and>
    run tbl evs (boot tbl fs srs) = Some s"
  then have r: "run tbl evs (boot tbl fs srs) = Some s" by simp
  then have inv: "only_launchable tbl s"
    using only_launchable_boot only_launchable_step by (rule run_invariant)
  from h launchable_no_cycle[of tbl a b] have nl: "\<not> launchable tbl a" by blast
  with inv show "a \<notin> startedAgents s" "handles s a = 0"
    by (auto simp: only_launchable_def)
  assume k: "a \<in> set (Object_keys tbl)"
  then have m: "map_of tbl a \<noteq> None"
    by (simp add: Object_keys_def map_of_eq_None_iff)
  have "only_launchable tbl sys0" by (simp add: only_launchable_def sys0_def)
  then have "blocked tbl a (boot tbl fs srs)"
    unfolding boot_def by (rule blocked_forEach[OF nl m]) (use k in simp)
  with r have "blocked tbl a s"
    using blocked_step[OF nl m] by (rule run_invariant)
  then show "loopAt s a = Sleeping 1000" by (simp add: blocked_def)
qed

theorem no_cycle_validation_witness:
  "''A'' \<in> set (Object_keys [(''A'', [''A''])]) \<and>
   loopAt (boot [(''A'', [''A''])] {script ''A''} every_child_starts) ''A'' \<noteq> NotStarted \<and>
   (''A'', ''A'') \<in> (dep_edges [(''A'', [''A''])])\<^sup>+ \<and>
   run [(''A'', [''A''])] [Wake ''A'' {script ''A''} ChildStarted] (boot [(''A'', [''A''])] {script ''A''} every_child_starts) =
     Some (sys0\<lparr>loopAt := (loopAt sys0)(''A'' := Sleeping 1000),
                effects := [Sleep 1000, Sleep 1000]\<rparr>) \<and>
   ''A'' \<notin> startedAgents (sys0\<lparr>loopAt := (loopAt sys0)(''A'' := Sleeping 1000),
                effects := [Sleep 1000, Sleep 1000]\<rparr>)"
proof -
  have k: "''A'' \<in> set (Object_keys [(''A'', [''A''])])" by (simp add: Object_keys_def)
  have "(''A'', ''A'') \<in> dep_edges [(''A'', [''A''])]" by (simp add: dep_edges_def)
  then have c: "(''A'', ''A'') \<in> (dep_edges [(''A'', [''A''])])\<^sup>+" by (rule r_into_trancl)
  have r: "run [(''A'', [''A''])] [Wake ''A'' {script ''A''} ChildStarted] (boot [(''A'', [''A''])] {script ''A''} every_child_starts) =
     Some (sys0\<lparr>loopAt := (loopAt sys0)(''A'' := Sleeping 1000),
                effects := [Sleep 1000, Sleep 1000]\<rparr>)"
    by (simp add: boot_def Object_keys_def startAgent_def every_child_starts_def spawnLoop_body_def sys0_def
        allDepsStarted_def)
  from no_cycle_validation [where a="''A''" and tbl="[(''A'', [''A''])]" and fs="{script ''A''}"
      and srs=every_child_starts and b="''A''"
      and evs="[Wake ''A'' {script ''A''} ChildStarted]"
      and s="sys0\<lparr>loopAt := (loopAt sys0)(''A'' := Sleeping 1000), effects := [Sleep 1000, Sleep 1000]\<rparr>"]
    k c r
  show ?thesis by blast
qed

text \<open>
  Claim C3 as stated fails. The table \<^verbatim>\<open>{ "A": ["A"] }\<close> has a cycle, and
  \<^verbatim>\<open>AGENTS.forEach\<close> starts the loop of \<^verbatim>\<open>A\<close> on it all the same, without any
  error: the loop goes into its first one-second wait.
\<close>

theorem cyclic_table_accepted_counterexample:
  "(''A'', ''A'') \<in> (dep_edges [(''A'', [''A''])])\<^sup>+ \<and>
   boot [(''A'', [''A''])] {script ''A''} every_child_starts =
     sys0\<lparr>loopAt := (loopAt sys0)(''A'' := Sleeping 1000), effects := [Sleep 1000]\<rparr>"
proof
  have "(''A'', ''A'') \<in> dep_edges [(''A'', [''A''])]"
    by (simp add: dep_edges_def)
  then show "(''A'', ''A'') \<in> (dep_edges [(''A'', [''A''])])\<^sup>+" by (rule r_into_trancl)
  show "boot [(''A'', [''A''])] {script ''A''} every_child_starts =
     sys0\<lparr>loopAt := (loopAt sys0)(''A'' := Sleeping 1000), effects := [Sleep 1000]\<rparr>"
    by (simp add: boot_def Object_keys_def startAgent_def every_child_starts_def spawnLoop_body_def sys0_def
        allDepsStarted_def)
qed

subsection \<open>The table as shipped\<close>

lemma script_AGENTS:
  "map script AGENTS =
     [''/home/loop/ai-runlevel/nexus-core.mjs'', ''/home/loop/ai-runlevel/nexus-wave.mjs'',
      ''/home/loop/ai-runlevel/nexus-loop.mjs'', ''/home/loop/ai-runlevel/nexus-coin.mjs'',
      ''/home/loop/ai-runlevel/nexus-sign.mjs'', ''/home/loop/ai-runlevel/nexus-work.mjs'',
      ''/home/loop/ai-runlevel/nexus-cube.mjs'', ''/home/loop/ai-runlevel/nexus-code.mjs'',
      ''/home/loop/ai-runlevel/nexus-line.mjs'']"
  by code_simp

lemma distinct_AGENTS: "distinct AGENTS"
  by (simp add: AGENTS_def Object_keys_def DEPENDENCIES_def)

end
